theory Spec2Isabelle
  imports Main "HOL-Library.Product_Lexorder"
begin

section \<open>Python values used by the text pipeline\<close>

text \<open>
  A Python \<open>str\<close> is a sequence of Unicode code points, so a string is modelled as a
  list of code points (naturals); \<open>len\<close> is \<open>length\<close>.  \<open>py\<close> embeds an ASCII
  literal.  Python integers are unbounded: \<open>int\<close>.
\<close>

type_synonym codepoint = nat
type_synonym pystr = "codepoint list"

definition py :: "string \<Rightarrow> pystr" where
  "py s = map of_char s"

text \<open>
  \<open>str.isspace\<close> on one character, which is also what \<open>\s\<close> matches in a \<open>str\<close>
  pattern of \<open>re\<close>: the code points Python classifies as whitespace.
\<close>

definition isspace :: "codepoint \<Rightarrow> bool" where
  "isspace c \<longleftrightarrow>
     (9 \<le> c \<and> c \<le> 13) \<or> (28 \<le> c \<and> c \<le> 32) \<or> c = 133 \<or> c = 160 \<or> c = 5760
     \<or> (8192 \<le> c \<and> c \<le> 8202) \<or> c = 8232 \<or> c = 8233 \<or> c = 8239 \<or> c = 8287
     \<or> c = 12288"

text \<open>The character class \<open>[.!?]\<close> of the sentence pattern.\<close>

definition is_terminator :: "codepoint \<Rightarrow> bool" where
  "is_terminator c \<longleftrightarrow> c = 46 \<or> c = 33 \<or> c = 63"

text \<open>
  A slice bound as Python normalises it against a sequence of length \<open>n\<close>: a negative
  bound counts from the end, and every bound is clamped into \<open>0..n\<close>.
\<close>

definition slice_bound :: "nat \<Rightarrow> int \<Rightarrow> nat" where
  "slice_bound n i =
     (if i < 0 then (if int n + i < 0 then 0 else nat (int n + i))
      else if int n < i then n else nat i)"

text \<open>\<open>xs[i:j]\<close>: empty when the normalised start is not below the normalised end.\<close>

definition py_slice :: "'a list \<Rightarrow> int \<Rightarrow> int \<Rightarrow> 'a list" where
  "py_slice xs i j =
     (let a = slice_bound (length xs) i; b = slice_bound (length xs) j
      in take (b - a) (drop a xs))"

text \<open>\<open>s.strip()\<close> with no argument: whitespace removed at both ends.\<close>

definition py_strip :: "pystr \<Rightarrow> pystr" where
  "py_strip s = rev (dropWhile isspace (rev (dropWhile isspace s)))"

text \<open>\<open>str(n)\<close> for a non-negative integer, and \<open>s.zfill(width)\<close> for an unsigned \<open>s\<close>.\<close>

fun str_of_nat :: "nat \<Rightarrow> pystr" where
  "str_of_nat n = (if n < 10 then [48 + n] else str_of_nat (n div 10) @ [48 + n mod 10])"

declare str_of_nat.simps [simp del]

definition zfill :: "nat \<Rightarrow> pystr \<Rightarrow> pystr" where
  "zfill width s = replicate (width - length s) 48 @ s"

text \<open>
  \<open>[m.end() for m in re.finditer(r'[.!?]\s+', s)]\<close>, with \<open>pos\<close> the offset of \<open>s\<close> in
  the scanned string.  A match is one terminator followed by a maximal run of at least
  one whitespace character; the scan resumes right after a match, and one character
  further where there is none.
\<close>

function finditer_ends :: "nat \<Rightarrow> pystr \<Rightarrow> nat list" where
  "finditer_ends pos [] = []"
| "finditer_ends pos [c] = []"
| "finditer_ends pos (c # d # cs) =
     (if is_terminator c \<and> isspace d
      then (let n = length (takeWhile isspace (d # cs))
            in (pos + 1 + n) # finditer_ends (pos + 1 + n) (dropWhile isspace (d # cs)))
      else finditer_ends (pos + 1) (d # cs))"
  by pat_completeness auto
termination
  by (relation "measure (\<lambda>(pos, s). length s)")
     (auto simp: less_Suc_eq_le intro!: le_SucI length_dropWhile_le)



section \<open>Windower: \<open>window_text_with_overlap\<close>\<close>

record window =
  w_text :: pystr
  w_start :: int
  w_end :: int

text \<open>
  The end of the window that starts at \<open>start\<close>: the cap \<open>min(start + window_size,
  len(text))\<close>, moved back to the end of the last sentence pattern found in the last 200
  characters before the cap when the cap is not the end of the text.
\<close>

definition window_end :: "pystr \<Rightarrow> int \<Rightarrow> int \<Rightarrow> int" where
  "window_end text window_size start =
     (let end0 = min (start + window_size) (int (length text))
      in if end0 < int (length text)
         then (let search_start = max (end0 - 200) start;
                   sentence_endings = finditer_ends 0 (py_slice text search_start end0)
               in if sentence_endings \<noteq> [] then search_start + int (last sentence_endings)
                  else end0)
         else end0)"

text \<open>
  The \<open>while start < len(text)\<close> loop.  It has no bound of its own, so it is a partial
  function: \<open>None\<close> is the loop that never returns.
\<close>

partial_function (option) window_loop ::
  "pystr \<Rightarrow> int \<Rightarrow> int \<Rightarrow> int \<Rightarrow> window list \<Rightarrow> window list option" where
  "window_loop text window_size overlap start windows =
     (if start < int (length text)
      then (let end1 = window_end text window_size start;
                windows' = windows @ [\<lparr>w_text = py_slice text start end1,
                                        w_start = start, w_end = end1\<rparr>]
            in if int (length text) \<le> end1 then Some windows'
               else window_loop text window_size overlap (end1 - overlap) windows')
      else Some windows)"

definition window_text_with_overlap :: "pystr \<Rightarrow> int \<Rightarrow> int \<Rightarrow> window list option" where
  "window_text_with_overlap text window_size overlap =
     (if int (length text) \<le> window_size
      then Some [\<lparr>w_text = text, w_start = 0, w_end = int (length text)\<rparr>]
      else window_loop text window_size overlap 0 [])"





section \<open>Sections\<close>

text \<open>
  A section is the dictionary the detection oracle returns for one heading.  The code
  reads \<open>title\<close>, \<open>level\<close>, \<open>char_start\<close> and \<open>char_end\<close> with \<open>dict.get\<close> and a
  default in some places and with \<open>section[key]\<close> in others, so every key may be absent.
  \<open>chunk_idx\<close> is the key the detector adds.
\<close>

record raw_section =
  s_title :: "pystr option"
  s_level :: "int option"
  s_char_start :: "int option"
  s_char_end :: "int option"
  s_chunk_idx :: "nat option"

datatype py_error = KeyError

text \<open>\<open>d.get(key, default)\<close> on an optional key.\<close>

definition dict_get :: "'a option \<Rightarrow> 'a \<Rightarrow> 'a" where
  "dict_get v d = (case v of None \<Rightarrow> d | Some x \<Rightarrow> x)"


section \<open>Section Detector Adapter: \<open>detect_semantic_sections\<close>\<close>

text \<open>
  The inner loop over the sections of one response: a section that has both
  \<open>char_start\<close> and \<open>char_end\<close> gets \<open>current_char_offset\<close> added to both and its
  \<open>chunk_idx\<close> set, and is appended to \<open>all_sections\<close>; any other section is dropped.
\<close>

fun adjust_sections :: "int \<Rightarrow> nat \<Rightarrow> raw_section list \<Rightarrow> raw_section list \<Rightarrow> raw_section list" where
  "adjust_sections current_char_offset chunk_idx [] all_sections = all_sections"
| "adjust_sections current_char_offset chunk_idx (s # ss) all_sections =
     (case (s_char_start s, s_char_end s) of
        (Some a, Some b) \<Rightarrow>
          adjust_sections current_char_offset chunk_idx ss
            (all_sections @ [s\<lparr>s_char_start := Some (a + current_char_offset),
                                s_char_end := Some (b + current_char_offset),
                                s_chunk_idx := Some chunk_idx\<rparr>])
      | _ \<Rightarrow> adjust_sections current_char_offset chunk_idx ss all_sections)"

text \<open>
  The loop over the chunks.  \<open>oracle chunk_idx chunk\<close> is \<open>extract_json\<close> of the
  response to the request for that chunk: \<open>Some\<close> of the sections when it is a list,
  \<open>None\<close> otherwise (then the chunk counts as having no sections).  \<open>n\<close> is
  \<open>len(chunks)\<close>; the offset grows by \<open>len(chunk)\<close> after every chunk but the last.
\<close>

fun detect_loop ::
  "(nat \<Rightarrow> pystr \<Rightarrow> raw_section list option) \<Rightarrow> nat \<Rightarrow> nat \<Rightarrow> int \<Rightarrow> pystr list
     \<Rightarrow> raw_section list \<Rightarrow> raw_section list" where
  "detect_loop oracle n chunk_idx current_char_offset [] all_sections = all_sections"
| "detect_loop oracle n chunk_idx current_char_offset (chunk # rest) all_sections =
     (let sections = (case oracle chunk_idx chunk of None \<Rightarrow> [] | Some ss \<Rightarrow> ss);
          all_sections' = adjust_sections current_char_offset chunk_idx sections all_sections;
          offset' = (if int chunk_idx < int n - 1
                     then current_char_offset + int (length chunk)
                     else current_char_offset)
      in detect_loop oracle n (chunk_idx + 1) offset' rest all_sections')"

text \<open>
  \<open>split_text_into_chunks\<close> (with the model and \<open>overlap_tokens=500\<close> fixed) is a
  function of the utilities module, taken as a parameter.  \<open>max_input_tokens\<close> is
  tested for truth: \<open>None\<close> and 0 both mean one chunk, the whole text.
\<close>

definition chunks_of :: "(pystr \<Rightarrow> int \<Rightarrow> pystr list) \<Rightarrow> pystr \<Rightarrow> int option \<Rightarrow> pystr list" where
  "chunks_of split_text_into_chunks text max_input_tokens =
     (case max_input_tokens of
        None \<Rightarrow> [text]
      | Some m \<Rightarrow> if m \<noteq> 0 then split_text_into_chunks text m else [text])"

definition whole_document :: "pystr \<Rightarrow> raw_section" where
  "whole_document text =
     \<lparr>s_title = Some (py ''Document Content''), s_level = Some 1, s_char_start = Some 0,
      s_char_end = Some (int (length text)), s_chunk_idx = None\<rparr>"

definition detect_semantic_sections ::
  "(pystr \<Rightarrow> int \<Rightarrow> pystr list) \<Rightarrow> (nat \<Rightarrow> pystr \<Rightarrow> raw_section list option) \<Rightarrow> pystr
     \<Rightarrow> int option \<Rightarrow> raw_section list" where
  "detect_semantic_sections split_text_into_chunks oracle text max_input_tokens =
     (let chunks = chunks_of split_text_into_chunks text max_input_tokens;
          all_sections = detect_loop oracle (length chunks) 0 0 chunks []
      in if all_sections = [] then [whole_document text] else all_sections)"

text \<open>A section the adapter keeps: one that has both offsets.\<close>

definition usable :: "raw_section \<Rightarrow> bool" where
  "usable s \<longleftrightarrow> s_char_start s \<noteq> None \<and> s_char_end s \<noteq> None"

text \<open>
  The invariant of a translated section, as the specification words it:
  \<open>lo \<le> char_start \<le> char_end \<le> hi\<close>, both offsets present.
\<close>

definition within :: "int \<Rightarrow> int \<Rightarrow> raw_section \<Rightarrow> bool" where
  "within lo hi s \<longleftrightarrow>
     (\<exists>a b. s_char_start s = Some a \<and> s_char_end s = Some b \<and> lo \<le> a \<and> a \<le> b \<and> b \<le> hi)"


section \<open>Section Reconciler: \<open>merge_overlapping_sections\<close>\<close>

text \<open>
  The sort key \<open>(x['char_start'], x.get('level', 1))\<close> and the duplicate key
  \<open>(section['char_start'], section.get('level', 1), section.get('title', ''))\<close>.
  Both read \<open>char_start\<close> by subscript; the function raises \<open>KeyError\<close> before using
  them when a section has none.
\<close>

definition sort_key_of :: "raw_section \<Rightarrow> int \<times> int" where
  "sort_key_of x = (the (s_char_start x), dict_get (s_level x) 1)"

definition position_key :: "raw_section \<Rightarrow> int \<times> int \<times> pystr" where
  "position_key x = (the (s_char_start x), dict_get (s_level x) 1, dict_get (s_title x) [])"

text \<open>The walk over the sorted sections, with \<open>merged\<close> and \<open>seen_positions\<close> as state.\<close>

fun dedup_loop ::
  "raw_section list \<Rightarrow> raw_section list \<Rightarrow> (int \<times> int \<times> pystr) set \<Rightarrow> raw_section list" where
  "dedup_loop [] merged seen_positions = merged"
| "dedup_loop (s # ss) merged seen_positions =
     (if position_key s \<in> seen_positions then dedup_loop ss merged seen_positions
      else dedup_loop ss (merged @ [s]) (insert (position_key s) seen_positions))"

text \<open>
  \<open>sorted(sections, key=...)\<close> is a stable sort on the key, tuples compared
  lexicographically: \<open>sort_key\<close> on pairs in the lexicographic order.
\<close>

definition merge_overlapping_sections :: "raw_section list \<Rightarrow> py_error + raw_section list" where
  "merge_overlapping_sections sections =
     (if sections = [] then Inr []
      else if list_ex (\<lambda>x. s_char_start x = None) sections then Inl KeyError
      else Inr (dedup_loop (sort_key sort_key_of sections) [] {}))"


section \<open>Section Materializer: \<open>extract_section_text\<close>\<close>

record txt_node =
  n_title :: pystr
  n_level :: int
  n_char_start :: int
  n_char_end :: int
  n_text :: pystr

text \<open>
  The loop \<open>for i, section in enumerate(sections)\<close>, on the sections from index \<open>i\<close> on:
  \<open>i + 1 < len(sections)\<close> holds exactly when a section follows.
\<close>

fun extract_from :: "pystr \<Rightarrow> nat \<Rightarrow> raw_section list \<Rightarrow> txt_node list" where
  "extract_from text i [] = []"
| "extract_from text i (section # rest) =
     (let start = dict_get (s_char_start section) 0;
          end1 = (case rest of
                    nxt # _ \<Rightarrow> dict_get (s_char_start nxt)
                                 (dict_get (s_char_end section) (int (length text)))
                  | [] \<Rightarrow> dict_get (s_char_end section) (int (length text)));
          section_text = py_strip (py_slice text start end1)
      in \<lparr>n_title = dict_get (s_title section) (py ''Section '' @ str_of_nat (i + 1)),
          n_level = dict_get (s_level section) 1,
          n_char_start = start, n_char_end = end1, n_text = section_text\<rparr>
         # extract_from text (i + 1) rest)"

definition extract_section_text :: "pystr \<Rightarrow> raw_section list \<Rightarrow> txt_node list" where
  "extract_section_text text sections = extract_from text 0 sections"


section \<open>Tree Builder: \<open>build_tree_from_txt_nodes\<close>\<close>

text \<open>
  A tree node is a dictionary that is mutated after it was created: the builder appends
  to the \<open>nodes\<close> list of a node it reaches through the stack, and the summary pass
  writes into nodes it reaches through a flat list.  So the nodes live in a heap, a
  list indexed by address, and \<open>nodes\<close> holds the addresses of the children.  \<open>text\<close>,
  \<open>nodes\<close>, \<open>summary\<close> and \<open>prefix_summary\<close> are keys that later passes read with
  \<open>dict.get\<close>, add or drop, so they are optional.
\<close>

record tree_node =
  t_title :: pystr
  t_node_id :: pystr
  t_text :: "pystr option"
  t_char_start :: int
  t_char_end :: int
  t_nodes :: "nat list option"
  t_summary :: "pystr option"
  t_prefix_summary :: "pystr option"

text \<open>A structure: the list of root nodes, as addresses into the heap of all nodes.\<close>

record tree_structure =
  st_roots :: "nat list"
  st_heap :: "tree_node list"

text \<open>The children of the node at address \<open>p\<close>: \<open>node.get('nodes')\<close>, none when absent.\<close>

definition children :: "tree_node list \<Rightarrow> nat \<Rightarrow> nat list" where
  "children h p = dict_get (t_nodes (h ! p)) []"

text \<open>
  The state of the loop: the heap, \<open>stack\<close> (its top first; each entry a node address
  and the level it was pushed with), \<open>root_nodes\<close> and \<open>node_counter\<close>.
\<close>

record build_state =
  b_heap :: "tree_node list"
  b_stack :: "(nat \<times> int) list"
  b_root_nodes :: "nat list"
  b_node_counter :: nat

text \<open>\<open>while stack and stack[-1][1] >= current_level: stack.pop()\<close>\<close>

fun pop_while :: "(nat \<times> int) list \<Rightarrow> int \<Rightarrow> (nat \<times> int) list" where
  "pop_while [] current_level = []"
| "pop_while ((p, l) # stack) current_level =
     (if current_level \<le> l then pop_while stack current_level else (p, l) # stack)"

text \<open>
  \<open>parent_node['nodes'].append(tree_node)\<close>, on the heap.  Every node the builder
  creates has the key \<open>nodes\<close>, so the subscript cannot fail here.
\<close>

definition append_child :: "tree_node list \<Rightarrow> nat \<Rightarrow> nat \<Rightarrow> tree_node list" where
  "append_child h p c = h[p := (h ! p)\<lparr>t_nodes := Some (children h p @ [c])\<rparr>]"

text \<open>One iteration of \<open>for node in node_list\<close>; the new node gets the next free address.\<close>

definition build_step :: "build_state \<Rightarrow> txt_node \<Rightarrow> build_state" where
  "build_step s node =
     (let current_level = n_level node;
          addr = length (b_heap s);
          tree_node = \<lparr>t_title = n_title node,
                       t_node_id = zfill 4 (str_of_nat (b_node_counter s)),
                       t_text = Some (n_text node),
                       t_char_start = n_char_start node,
                       t_char_end = n_char_end node,
                       t_nodes = Some [],
                       t_summary = None, t_prefix_summary = None\<rparr>;
          heap1 = b_heap s @ [tree_node];
          node_counter = b_node_counter s + 1;
          stack = pop_while (b_stack s) current_level
      in case stack of
           [] \<Rightarrow> \<lparr>b_heap = heap1, b_stack = [(addr, current_level)],
                  b_root_nodes = b_root_nodes s @ [addr], b_node_counter = node_counter\<rparr>
         | (parent_node, parent_level) # rest \<Rightarrow>
               \<lparr>b_heap = append_child heap1 parent_node addr,
                b_stack = (addr, current_level) # stack,
                b_root_nodes = b_root_nodes s, b_node_counter = node_counter\<rparr>)"

definition build_init :: build_state where
  "build_init = \<lparr>b_heap = [], b_stack = [], b_root_nodes = [], b_node_counter = 1\<rparr>"

definition build_tree_from_txt_nodes :: "txt_node list \<Rightarrow> tree_structure" where
  "build_tree_from_txt_nodes node_list =
     (if node_list = [] then \<lparr>st_roots = [], st_heap = []\<rparr>
      else (let s = foldl build_step build_init node_list
            in \<lparr>st_roots = b_root_nodes s, st_heap = b_heap s\<rparr>))"

text \<open>
  A chain of nodes each nested directly under the one before: \<open>c\<close> is a child of \<open>p\<close>
  when \<open>nested h [p, c]\<close>, and a descendant when some chain leads from \<open>p\<close> to \<open>c\<close>.
\<close>

fun nested :: "tree_node list \<Rightarrow> nat list \<Rightarrow> bool" where
  "nested h (p # c # rest) = (p < length h \<and> c \<in> set (children h p) \<and> nested h (c # rest))"
| "nested h ps = True"

text \<open>
  The invariant of the loop after the candidates \<open>xs\<close>: node \<open>a\<close> of the heap was built
  from candidate \<open>a\<close>, every stack entry carries the level of its node's candidate, and
  every child is a later candidate of strictly greater level than its parent.
\<close>

definition build_inv :: "txt_node list \<Rightarrow> build_state \<Rightarrow> bool" where
  "build_inv xs s \<longleftrightarrow>
     length (b_heap s) = length xs
     \<and> b_node_counter s = length xs + 1
     \<and> (\<forall>a l. (a, l) \<in> set (b_stack s) \<longrightarrow> a < length xs \<and> l = n_level (xs ! a))
     \<and> (\<forall>p c. p < length xs \<and> c \<in> set (children (b_heap s) p) \<longrightarrow>
            p < c \<and> c < length xs \<and> n_level (xs ! p) < n_level (xs ! c))
     \<and> (\<forall>a. a < length xs \<longrightarrow>
            t_title (b_heap s ! a) = n_title (xs ! a)
            \<and> t_node_id (b_heap s ! a) = zfill 4 (str_of_nat (a + 1))
            \<and> t_text (b_heap s ! a) = Some (n_text (xs ! a))
            \<and> t_char_start (b_heap s ! a) = n_char_start (xs ! a)
            \<and> t_char_end (b_heap s ! a) = n_char_end (xs ! a))"


section \<open>Summary Orchestrator\<close>

text \<open>
  \<open>get_node_summary_txt\<close>.  \<open>count_tokens\<close> and \<open>generate_node_summary\<close> are functions
  of the utilities module (the model and \<open>max_input_tokens\<close> fixed), taken as
  parameters; the second is the summarization oracle.  The result is the summary and
  whether the oracle was called for it.
\<close>

definition get_node_summary_txt ::
  "(pystr \<Rightarrow> int) \<Rightarrow> (tree_node \<Rightarrow> pystr) \<Rightarrow> int \<Rightarrow> tree_node \<Rightarrow> pystr \<times> bool" where
  "get_node_summary_txt count_tokens generate_node_summary summary_token_threshold node =
     (let node_text = dict_get (t_text node) [];
          num_tokens = count_tokens node_text
      in if num_tokens < summary_token_threshold then (node_text, False)
         else (generate_node_summary node, True))"

text \<open>
  The loop \<open>for node, summary in zip(nodes, summaries)\<close>: a node without children
  (\<open>not node.get('nodes')\<close>: the key absent or the list empty) gets \<open>summary\<close>, any other
  node \<open>prefix_summary\<close>.  The nodes are the addresses \<open>structure_to_list\<close> returned.
\<close>

fun write_summaries :: "tree_node list \<Rightarrow> (nat \<times> pystr) list \<Rightarrow> tree_node list" where
  "write_summaries h [] = h"
| "write_summaries h ((a, summary) # rest) =
     write_summaries
       (h[a := (if children h a = [] then (h ! a)\<lparr>t_summary := Some summary\<rparr>
                else (h ! a)\<lparr>t_prefix_summary := Some summary\<rparr>)])
       rest"

text \<open>
  \<open>generate_summaries_for_txt_structure\<close>.  \<open>structure_to_list\<close> is a function of the
  utilities module, taken as a parameter: the nodes of the structure, as addresses.
  The summarization oracle is indexed by the position of the task, so that it may
  answer differently for equal nodes.  All summaries are computed (\<open>asyncio.gather\<close>
  returns them in task order) before any is written.  The result is the structure with
  the summaries written, and the addresses for which the oracle was called.
\<close>

definition generate_summaries_for_txt_structure ::
  "(tree_structure \<Rightarrow> nat list) \<Rightarrow> (pystr \<Rightarrow> int) \<Rightarrow> (nat \<Rightarrow> tree_node \<Rightarrow> pystr) \<Rightarrow> int
     \<Rightarrow> tree_structure \<Rightarrow> tree_structure \<times> nat list" where
  "generate_summaries_for_txt_structure structure_to_list count_tokens generate_node_summary
       summary_token_threshold structure =
     (let nodes = structure_to_list structure;
          tasks = map (\<lambda>(i, a). get_node_summary_txt count_tokens (generate_node_summary i)
                                  summary_token_threshold (st_heap structure ! a))
                      (enumerate 0 nodes);
          summaries = map fst tasks;
          calls = map fst (filter (\<lambda>(a, r). snd r) (zip nodes tasks))
      in (structure\<lparr>st_heap := write_summaries (st_heap structure) (zip nodes summaries)\<rparr>,
          calls))"

text \<open>The value the orchestrator has written back for a node: \<open>summary\<close> for a leaf,
  \<open>prefix_summary\<close> for a node with children.\<close>

definition written_back :: "tree_node \<Rightarrow> pystr option" where
  "written_back node =
     (if dict_get (t_nodes node) [] = [] then t_summary node else t_prefix_summary node)"


section \<open>The pipeline: \<open>txt_to_tree\<close>\<close>

text \<open>
  What \<open>txt_to_tree\<close> calls outside this module, with the model fixed: reading the
  file, the name of the document (\<open>os.path.splitext(os.path.basename(txt_path))[0]\<close>),
  the two oracles and the functions of the utilities module.  \<open>write_node_id\<close> changes
  the structure in place; here it returns the changed structure.
\<close>

record collaborators =
  read_file :: "pystr \<Rightarrow> pystr"
  doc_name_of :: "pystr \<Rightarrow> pystr"
  split_text_into_chunks :: "pystr \<Rightarrow> int \<Rightarrow> pystr list"
  detection_oracle :: "nat \<Rightarrow> pystr \<Rightarrow> raw_section list option"
  write_node_id :: "tree_structure \<Rightarrow> tree_structure"
  format_structure :: "tree_structure \<Rightarrow> pystr list \<Rightarrow> tree_structure"
  structure_to_list :: "tree_structure \<Rightarrow> nat list"
  count_tokens :: "pystr \<Rightarrow> int"
  generate_node_summary :: "nat \<Rightarrow> tree_node \<Rightarrow> pystr"
  create_clean_structure_for_description :: "tree_structure \<Rightarrow> tree_structure"
  generate_doc_description :: "tree_structure \<Rightarrow> pystr"

record document_result =
  doc_name :: pystr
  doc_description :: "pystr option"
  doc_structure :: tree_structure

definition order_with_text :: "pystr list" where
  "order_with_text = [py ''title'', py ''node_id'', py ''summary'', py ''prefix_summary'',
                      py ''text'', py ''char_start'', py ''char_end'', py ''nodes'']"

definition order_without_text :: "pystr list" where
  "order_without_text = [py ''title'', py ''node_id'', py ''summary'', py ''prefix_summary'',
                         py ''char_start'', py ''char_end'', py ''nodes'']"

text \<open>
  \<open>txt_to_tree\<close>.  \<open>window_size\<close> and \<open>overlap\<close> are parameters of the function; the
  body only prints them (printing is not modelled: it is no part of the result).  The
  options are the strings the caller passes, compared with \<open>'yes'\<close> and \<open>'no'\<close> as the
  code does.
\<close>

definition txt_to_tree ::
  "collaborators \<Rightarrow> pystr \<Rightarrow> int \<Rightarrow> int \<Rightarrow> pystr \<Rightarrow> int \<Rightarrow> pystr \<Rightarrow> pystr \<Rightarrow> pystr \<Rightarrow> int option
     \<Rightarrow> py_error + document_result" where
  "txt_to_tree env txt_path window_size overlap if_add_node_summary summary_token_threshold
       if_add_doc_description if_add_node_text if_add_node_id max_input_tokens =
     (let text = read_file env txt_path;
          sections = detect_semantic_sections (split_text_into_chunks env)
                       (detection_oracle env) text max_input_tokens
      in case merge_overlapping_sections sections of
           Inl e \<Rightarrow> Inl e
         | Inr sections' \<Rightarrow>
            (let nodes_with_content = extract_section_text text sections';
                 tree0 = build_tree_from_txt_nodes nodes_with_content;
                 tree1 = (if if_add_node_id = py ''yes'' then write_node_id env tree0 else tree0)
             in if if_add_node_summary = py ''yes''
                then (let tree2 = format_structure env tree1 order_with_text;
                          tree3 = fst (generate_summaries_for_txt_structure
                                         (structure_to_list env) (count_tokens env)
                                         (generate_node_summary env) summary_token_threshold
                                         tree2);
                          tree4 = (if if_add_node_text = py ''no''
                                   then format_structure env tree3 order_without_text
                                   else tree3)
                      in if if_add_doc_description = py ''yes''
                         then Inr \<lparr>doc_name = doc_name_of env txt_path,
                                   doc_description =
                                     Some (generate_doc_description env
                                             (create_clean_structure_for_description env tree4)),
                                   doc_structure = tree4\<rparr>
                         else Inr \<lparr>doc_name = doc_name_of env txt_path,
                                   doc_description = None, doc_structure = tree4\<rparr>)
                else (let tree2 = (if if_add_node_text = py ''yes''
                                   then format_structure env tree1 order_with_text
                                   else format_structure env tree1 order_without_text)
                      in Inr \<lparr>doc_name = doc_name_of env txt_path,
                               doc_description = None, doc_structure = tree2\<rparr>)))"


text \<open>Shorthand for a section with every key present, for concrete runs.\<close>

abbreviation sec :: "string \<Rightarrow> int \<Rightarrow> int \<Rightarrow> int \<Rightarrow> nat \<Rightarrow> raw_section" where
  "sec t l a b i \<equiv> \<lparr>s_title = Some (py t), s_level = Some l, s_char_start = Some a,
                     s_char_end = Some b, s_chunk_idx = Some i\<rparr>"


text \<open>
  Five candidates at levels 1, 2, 2, 1, 3 in document order, for a concrete run of the
  tree builder.
\<close>

abbreviation cand :: "string \<Rightarrow> int \<Rightarrow> int \<Rightarrow> int \<Rightarrow> txt_node" where
  "cand t l a b \<equiv> \<lparr>n_title = py t, n_level = l, n_char_start = a, n_char_end = b,
                    n_text = py t\<rparr>"

abbreviation example_outline :: "txt_node list" where
  "example_outline \<equiv> [cand ''A'' 1 0 10, cand ''B'' 2 10 20, cand ''C'' 2 20 30,
                       cand ''D'' 1 30 40, cand ''E'' 3 40 50]"

text \<open>
  A structure of two nodes for a concrete run of the summary pass: a root with a short
  text and one child, a leaf with a longer text.
\<close>

abbreviation example_structure :: tree_structure where
  "example_structure \<equiv>
     \<lparr>st_roots = [0],
      st_heap = [\<lparr>t_title = py ''Root'', t_node_id = py ''0001'', t_text = Some (py ''Hi''),
                   t_char_start = 0, t_char_end = 2, t_nodes = Some [1],
                   t_summary = None, t_prefix_summary = None\<rparr>,
                 \<lparr>t_title = py ''Leaf'', t_node_id = py ''0002'',
                   t_text = Some (py ''A long body''),
                   t_char_start = 2, t_char_end = 13, t_nodes = Some [],
                   t_summary = None, t_prefix_summary = None\<rparr>]\<rparr>"

section \<open>Properties of the windower\<close>

lemma finditer_ends_bounds:
  "e \<in> set (finditer_ends pos s) \<Longrightarrow> pos + 2 \<le> e \<and> e \<le> pos + length s"
proof (induction pos s arbitrary: e rule: finditer_ends.induct)
  case (1 pos)
  then show ?case by simp
next
  case (2 pos c)
  then show ?case by simp
next
  case (3 pos c d cs)
  show ?case
  proof (cases "is_terminator c \<and> isspace d")
    case True
    define n where "n = length (takeWhile isspace (d # cs))"
    have n1: "1 \<le> n" using True by (simp add: n_def)
    have n2: "n \<le> Suc (length cs)"
      unfolding n_def using length_takeWhile_le [of isspace "d # cs"] by simp
    have len: "n + length (dropWhile isspace (d # cs)) = Suc (length cs)"
      unfolding n_def
      using arg_cong [OF takeWhile_dropWhile_id [of isspace "d # cs"], of length] by simp
    from "3.prems" True
    have "e = pos + 1 + n \<or> e \<in> set (finditer_ends (pos + 1 + n) (dropWhile isspace (d # cs)))"
      by (simp add: n_def Let_def)
    then show ?thesis
    proof
      assume "e = pos + 1 + n"
      then show ?thesis using n1 n2 by simp
    next
      assume "e \<in> set (finditer_ends (pos + 1 + n) (dropWhile isspace (d # cs)))"
      from "3.IH"(1) [OF True n_def this] show ?thesis using len by simp
    qed
  next
    case False
    with "3.prems" have "e \<in> set (finditer_ends (pos + 1) (d # cs))" by auto
    from "3.IH"(2) [OF False this] show ?thesis by simp
  qed
qed

lemma length_py_slice:
  "0 \<le> i \<Longrightarrow> i \<le> j \<Longrightarrow> j \<le> int (length xs) \<Longrightarrow> length (py_slice xs i j) = nat (j - i)"
  by (simp add: py_slice_def slice_bound_def Let_def) 



lemma length_py_slice_le:
  "i \<le> j \<Longrightarrow> j \<le> int (length xs) \<Longrightarrow> length (py_slice xs i j) \<le> nat (j - i)"
  by (auto simp add: py_slice_def slice_bound_def Let_def)


lemma window_end_ge:
  assumes "0 \<le> window_size" "start < int (length text)"
    and "window_end text window_size start < int (length text)"
  shows "start + min window_size (max (window_size - 200) 0 + 2)
           \<le> window_end text window_size start"
    and "window_end text window_size start \<le> start + window_size"
proof -
  define e0 where "e0 = min (start + window_size) (int (length text))"
  define ss where "ss = max (e0 - 200) start"
  define se where "se = finditer_ends 0 (py_slice text ss e0)"
  define r where "r = window_end text window_size start"
  have we: "r = (if e0 < int (length text) then (if se \<noteq> [] then ss + int (last se) else e0) else e0)"
    by (simp add: r_def window_end_def Let_def e0_def ss_def se_def)
  have rlt: "r < int (length text)" using assms(3) by (simp add: r_def)
  have e0lt: "e0 < int (length text)"
  proof (rule ccontr)
    assume "\<not> e0 < int (length text)"
    then have "r = e0" by (simp add: we)
    with rlt \<open>\<not> e0 < int (length text)\<close> show False by simp
  qed
  have e0: "e0 = start + window_size" using e0lt unfolding e0_def by linarith
  have ss: "ss = start + max (window_size - 200) 0" unfolding ss_def e0 by linarith
  have both: "start + min window_size (max (window_size - 200) 0 + 2) \<le> r \<and> r \<le> start + window_size"
  proof (cases "se = []")
    case True
    then have "r = e0" using e0lt by (simp add: we)
    then show ?thesis unfolding e0 by linarith
  next
    case False
    then have req: "r = ss + int (last se)" using e0lt by (simp add: we)
    from False have "last se \<in> set se" by simp
    then have b: "2 \<le> last se \<and> last se \<le> length (py_slice text ss e0)"
      using finditer_ends_bounds [of "last se" 0 "py_slice text ss e0"] by (simp add: se_def)
    have sle: "ss \<le> e0" unfolding ss e0 using assms(1) by linarith
    have "length (py_slice text ss e0) \<le> nat (e0 - ss)"
      by (rule length_py_slice_le [OF sle]) (use e0lt in linarith)
    with b sle have "2 \<le> int (last se) \<and> int (last se) \<le> e0 - ss" by linarith
    then show ?thesis unfolding req ss e0 by linarith
  qed
  from both show "start + min window_size (max (window_size - 200) 0 + 2)
           \<le> window_end text window_size start" by (simp add: r_def)
  from both show "window_end text window_size start \<le> start + window_size" by (simp add: r_def)
qed

lemma window_loop_returns:
  assumes "0 \<le> overlap" "overlap < window_size" "overlap < max (window_size - 200) 0 + 2"
  shows "\<exists>W. window_loop text window_size overlap start windows = Some W"
proof (induction "nat (int (length text) - start)" arbitrary: start windows rule: less_induct)
  case less
  show ?case
  proof (cases "start < int (length text)")
    case False
    then show ?thesis by (subst window_loop.simps) simp
  next
    case True
    define end1 where "end1 = window_end text window_size start"
    show ?thesis
    proof (cases "int (length text) \<le> end1")
      case True
      with \<open>start < int (length text)\<close> show ?thesis
        by (subst window_loop.simps) (simp add: end1_def Let_def)
    next
      case False
      then have lt: "window_end text window_size start < int (length text)"
        by (simp add: end1_def)
      have ws0: "0 \<le> window_size" using assms by simp
      from window_end_ge(1) [OF ws0 True lt] assms
      have adv: "start < end1 - overlap" by (simp add: end1_def)
      then have "nat (int (length text) - (end1 - overlap)) < nat (int (length text) - start)"
        using True by simp
      from less [OF this] obtain W where
        "window_loop text window_size overlap (end1 - overlap)
           (windows @ [\<lparr>w_text = py_slice text start end1, w_start = start, w_end = end1\<rparr>]) = Some W"
        by blast
      with True False show ?thesis
        by (subst window_loop.simps) (simp add: end1_def Let_def)
    qed
  qed
qed


lemma window_loop_stuck:
  assumes st: "start < int (length text)"
    and lt: "window_end text window_size start < int (length text)"
    and stay: "window_end text window_size start - overlap = start"
  shows "window_loop text window_size overlap start windows = None"
proof (cases "window_loop text window_size overlap start windows")
  case None
  then show ?thesis .
next
  case (Some W)
  define P where "P = (\<lambda>t ws ov s (wins :: window list) (y :: window list).
    \<not> (t = text \<and> ws = window_size \<and> ov = overlap \<and> s = start))"
  have "P text window_size overlap start windows W"
    apply (rule window_loop.raw_induct [where P = P, OF _ Some])
    subgoal premises prems for f t ws ov s wins y
    proof (cases "t = text \<and> ws = window_size \<and> ov = overlap \<and> s = start")
      case False
      then show ?thesis by (simp add: P_def)
    next
      case True
      with prems(2) st lt stay obtain wins' where "f t ws ov s wins' = Some y"
        by (auto simp: Let_def split: if_splits)
      from prems(1) [OF this] True show ?thesis by (simp add: P_def)
    qed
    done
  then show ?thesis by (simp add: P_def)
qed



lemmas eval_defs = py_def window_end_def py_slice_def slice_bound_def Let_def isspace_def
  is_terminator_def window_text_with_overlap_def

text \<open>
  C2 (as amended).  The claim asks only for \<open>0 \<le> overlap < window_size\<close>.  Sentence
  snapping can move a window's end back to two characters after the start of the search
  region, so the start is only sure to advance when moreover
  \<open>overlap < max(window_size - 200, 0) + 2\<close>.  Under that condition every iteration that
  goes on (its window ends before the end of the text) continues from a strictly larger
  start, and \<open>window_text_with_overlap\<close> returns.
\<close>

theorem window_start_advances_and_terminates:
  assumes "0 \<le> overlap" "overlap < window_size" "overlap < max (window_size - 200) 0 + 2"
  shows "(start < int (length text) \<and> window_end text window_size start < int (length text)
            \<longrightarrow> start < window_end text window_size start - overlap)
         \<and> (\<exists>W. window_text_with_overlap text window_size overlap = Some W)"
proof (intro conjI impI)
  assume a: "start < int (length text) \<and> window_end text window_size start < int (length text)"
  have "0 \<le> window_size" using assms by simp
  from window_end_ge(1) [OF this] a
  have "start + min window_size (max (window_size - 200) 0 + 2)
          \<le> window_end text window_size start" by blast
  with assms show "start < window_end text window_size start - overlap" by linarith
next
  show "\<exists>W. window_text_with_overlap text window_size overlap = Some W"
    unfolding window_text_with_overlap_def
    using window_loop_returns [OF assms, of "text" 0 "[]"] by simp
qed

theorem window_start_advances_and_terminates_witness:
  "(0::int) \<le> 1 \<and> (1::int) < 8 \<and> (1::int) < max (8 - 200) 0 + 2
   \<and> 0 < window_end (py ''One. Two. Three.'') 8 0 - 1
   \<and> (\<exists>W. window_text_with_overlap (py ''One. Two. Three.'') 8 1 = Some W)"
proof -
  have a: "(0::int) \<le> 1" and b: "(1::int) < 8" and c: "(1::int) < max (8 - 200) 0 + 2"
    by simp_all
  have pre: "0 < int (length (py ''One. Two. Three.''))
      \<and> window_end (py ''One. Two. Three.'') 8 0 < int (length (py ''One. Two. Three.''))"
    by (simp add: eval_defs)
  from window_start_advances_and_terminates [OF a b c, of 0 "py ''One. Two. Three.''"] pre
  show ?thesis by simp
qed

text \<open>
  C2 as stated fails: with \<open>window_size = 3\<close> and \<open>overlap = 2\<close> on the text \<open>". ab"\<close> the
  first window is cut after the sentence pattern, at 2, so the next start is 0 again and
  the loop never returns.
\<close>

theorem window_start_stalls_counterexample:
  "(0::int) \<le> 2 \<and> (2::int) < 3
   \<and> 0 < int (length (py ''. ab''))
   \<and> window_end (py ''. ab'') 3 0 < int (length (py ''. ab''))
   \<and> window_end (py ''. ab'') 3 0 - 2 = 0
   \<and> window_text_with_overlap (py ''. ab'') 3 2 = None"
proof -
  have "window_loop (py ''. ab'') 3 2 0 [] = None"
    by (rule window_loop_stuck) (simp_all add: eval_defs)
  then show ?thesis by (simp add: eval_defs)
qed











section \<open>Properties of the section detector adapter\<close>

lemma adjust_sections_none:
  "list_all (\<lambda>s. \<not> usable s) ss \<Longrightarrow> adjust_sections off idx ss all_sections = all_sections"
  by (induction ss arbitrary: all_sections) (auto simp: usable_def split: option.splits)

lemma detect_loop_none:
  assumes "\<And>i c. list_all (\<lambda>s. \<not> usable s) (case oracle i c of None \<Rightarrow> [] | Some ss \<Rightarrow> ss)"
  shows "detect_loop oracle n idx off chunks all_sections = all_sections"
  using assms
  by (induction chunks arbitrary: idx off all_sections) (simp_all add: Let_def adjust_sections_none)

text \<open>
  C8.  The adapter never returns an empty list, and when no section was detected over
  all sub-chunks (in particular when every response is unparsable or not an array, or
  holds no section with both offsets) it returns exactly the one synthesized section:
  \<open>[0, len(text)]\<close>, level 1, titled \<open>Document Content\<close>.
\<close>

theorem detector_never_empty:
  "detect_semantic_sections split oracle text m \<noteq> []
   \<and> (detect_loop oracle (length (chunks_of split text m)) 0 0 (chunks_of split text m) [] = []
        \<longrightarrow> detect_semantic_sections split oracle text m = [whole_document text])
   \<and> ((\<forall>i c. list_all (\<lambda>s. \<not> usable s) (case oracle i c of None \<Rightarrow> [] | Some ss \<Rightarrow> ss))
        \<longrightarrow> detect_semantic_sections split oracle text m = [whole_document text])
   \<and> ((\<forall>i c. oracle i c = None)
        \<longrightarrow> detect_semantic_sections split oracle text m = [whole_document text])
   \<and> s_char_start (whole_document text) = Some 0
   \<and> s_char_end (whole_document text) = Some (int (length text))
   \<and> s_level (whole_document text) = Some 1
   \<and> s_title (whole_document text) = Some (py ''Document Content'')"
proof -
  have nonempty: "detect_semantic_sections split oracle text m \<noteq> []"
    by (simp add: detect_semantic_sections_def Let_def)
  have empty: "detect_loop oracle (length (chunks_of split text m)) 0 0 (chunks_of split text m) [] = []
      \<Longrightarrow> detect_semantic_sections split oracle text m = [whole_document text]"
    by (simp add: detect_semantic_sections_def Let_def)
  have unusable: "detect_semantic_sections split oracle text m = [whole_document text]"
    if "\<forall>i c. list_all (\<lambda>s. \<not> usable s) (case oracle i c of None \<Rightarrow> [] | Some ss \<Rightarrow> ss)"
    using that by (intro empty detect_loop_none) simp
  have unparsable: "detect_semantic_sections split oracle text m = [whole_document text]"
    if "\<forall>i c. oracle i c = None"
    using that by (intro unusable) simp
  show ?thesis
    using nonempty empty unusable unparsable by (simp add: whole_document_def)
qed

theorem detector_never_empty_witness:
  "detect_semantic_sections (\<lambda>t k. [t]) (\<lambda>i c. None) (py ''abc'') None
     = [\<lparr>s_title = Some (py ''Document Content''), s_level = Some 1, s_char_start = Some 0,
         s_char_end = Some 3, s_chunk_idx = None\<rparr>]"
proof -
  have "\<forall>i c. (\<lambda>(i::nat) (c::pystr). (None :: raw_section list option)) i c = None" by simp
  with detector_never_empty [of "\<lambda>t k. [t]" "\<lambda>i c. None" "py ''abc''" None]
  have "detect_semantic_sections (\<lambda>t k. [t]) (\<lambda>i c. None) (py ''abc'') None
          = [whole_document (py ''abc'')]" by blast
  then show ?thesis by (simp add: whole_document_def py_def)
qed

text \<open>
  C1.  The offset of a sub-chunk is the sum of the lengths of the sub-chunks before it,
  although consecutive sub-chunks overlap.  On the six-character document \<open>abcdef\<close>
  split into the overlapping sub-chunks \<open>abcd\<close> and \<open>cdef\<close>, with the oracle
  returning for each sub-chunk the section \<open>[0, len(chunk)]\<close> (offsets within the
  sub-chunk, as the claim assumes), the second section is translated to \<open>[4, 8]\<close>:
  its \<open>char_end\<close> is beyond \<open>len(document) = 6\<close>.
\<close>

theorem detector_offsets_exceed_document:
  "detect_semantic_sections (\<lambda>t k. [py ''abcd'', py ''cdef''])
       (\<lambda>i c. Some [\<lparr>s_title = Some (py ''S''), s_level = Some 1, s_char_start = Some 0,
                       s_char_end = Some (int (length c)), s_chunk_idx = None\<rparr>])
       (py ''abcdef'') (Some 4)
     = [sec ''S'' 1 0 4 0, sec ''S'' 1 4 8 1]
   \<and> int (length (py ''abcdef'')) = 6
   \<and> \<not> within 0 (int (length (py ''abcdef''))) (sec ''S'' 1 4 8 1)"
  by (simp add: detect_semantic_sections_def chunks_of_def Let_def py_def within_def)


lemma adjust_sections_span:
  assumes "s' \<in> set (adjust_sections off idx ss all_sections)"
  shows "s' \<in> set all_sections
     \<or> (\<exists>s a b. s \<in> set ss \<and> s_char_start s = Some a \<and> s_char_end s = Some b
            \<and> s_char_start s' = Some (a + off) \<and> s_char_end s' = Some (b + off))"
  using assms
proof (induction ss arbitrary: all_sections)
  case Nil
  then show ?case by simp
next
  case (Cons s ss)
  show ?case
  proof (cases "s_char_start s")
    case None
    with Cons.prems have "s' \<in> set (adjust_sections off idx ss all_sections)" by simp
    from Cons.IH [OF this] show ?thesis by auto
  next
    case (Some a)
    note a = this
    show ?thesis
    proof (cases "s_char_end s")
      case None
      with a Cons.prems have "s' \<in> set (adjust_sections off idx ss all_sections)" by simp
      from Cons.IH [OF this] show ?thesis by auto
    next
      case (Some b)
      with a Cons.prems
      have "s' \<in> set (adjust_sections off idx ss
              (all_sections @ [s\<lparr>s_char_start := Some (a + off), s_char_end := Some (b + off),
                                  s_chunk_idx := Some idx\<rparr>]))" by simp
      from Cons.IH [OF this] a Some show ?thesis by auto
    qed
  qed
qed

lemma detect_loop_span:
  assumes local: "\<And>i c ss s. oracle i c = Some ss \<Longrightarrow> s \<in> set ss \<Longrightarrow> usable s
                    \<Longrightarrow> within 0 (int (length c)) s"
    and "s' \<in> set (detect_loop oracle n idx off chunks all_sections)"
  shows "s' \<in> set all_sections \<or> within off (off + int (length (concat chunks))) s'"
  using assms(2)
proof (induction chunks arbitrary: idx off all_sections)
  case Nil
  then show ?case by simp
next
  case (Cons chunk rest)
  define sections where "sections = (case oracle idx chunk of None \<Rightarrow> [] | Some ss \<Rightarrow> ss)"
  define all' where "all' = adjust_sections off idx sections all_sections"
  define off' where "off' = (if int idx < int n - 1 then off + int (length chunk) else off)"
  from Cons.prems have "s' \<in> set (detect_loop oracle n (idx + 1) off' rest all')"
    by (simp add: Let_def sections_def all'_def off'_def)
  from Cons.IH [OF this]
  have "s' \<in> set all' \<or> within off' (off' + int (length (concat rest))) s'" .
  then show ?case
  proof
    assume "s' \<in> set all'"
    from adjust_sections_span [OF this [unfolded all'_def]]
    show ?thesis
    proof
      assume "s' \<in> set all_sections"
      then show ?thesis ..
    next
      assume "\<exists>s a b. s \<in> set sections \<and> s_char_start s = Some a \<and> s_char_end s = Some b
            \<and> s_char_start s' = Some (a + off) \<and> s_char_end s' = Some (b + off)"
      then obtain s a b where s: "s \<in> set sections" "s_char_start s = Some a"
        "s_char_end s = Some b" "s_char_start s' = Some (a + off)"
        "s_char_end s' = Some (b + off)" by blast
      from s(1) obtain ss where ss: "oracle idx chunk = Some ss" "s \<in> set ss"
        by (cases "oracle idx chunk") (auto simp: sections_def)
      from s(2,3) have "usable s" by (simp add: usable_def)
      from local [OF ss this] s(2,3) have "0 \<le> a \<and> a \<le> b \<and> b \<le> int (length chunk)"
        by (simp add: within_def)
      with s(4,5) have "within off (off + int (length (concat (chunk # rest)))) s'"
        by (simp add: within_def)
      then show ?thesis ..
    qed
  next
    assume "within off' (off' + int (length (concat rest))) s'"
    then have "within off (off + int (length (concat (chunk # rest)))) s'"
      by (auto simp: within_def off'_def split: if_splits)
    then show ?thesis ..
  qed
qed

text \<open>
  Where the sub-chunks are consecutive pieces of the document that do not overlap (their
  concatenation is the text; in particular the single chunk of an unsplit text) and every
  usable section of the oracle lies within its sub-chunk with \<open>char_start \<le> char_end\<close>,
  every section the adapter returns satisfies \<open>0 \<le> char_start \<le> char_end \<le> len(text)\<close>.
\<close>

theorem detector_offsets_within_document:
  assumes "concat (chunks_of split text m) = text"
    and "\<And>i c ss s. oracle i c = Some ss \<Longrightarrow> s \<in> set ss \<Longrightarrow> usable s
            \<Longrightarrow> within 0 (int (length c)) s"
    and "s' \<in> set (detect_semantic_sections split oracle text m)"
  shows "within 0 (int (length text)) s'"
proof (cases "detect_loop oracle (length (chunks_of split text m)) 0 0 (chunks_of split text m) [] = []")
  case True
  with assms(3) have "s' = whole_document text"
    by (simp add: detect_semantic_sections_def Let_def)
  then show ?thesis by (simp add: within_def whole_document_def)
next
  case False
  with assms(3)
  have "s' \<in> set (detect_loop oracle (length (chunks_of split text m)) 0 0
                    (chunks_of split text m) [])"
    by (simp add: detect_semantic_sections_def Let_def)
  from detect_loop_span [OF assms(2) this] assms(1) show ?thesis by simp
qed


theorem detector_offsets_within_document_witness:
  "concat (chunks_of (\<lambda>t k. [py ''abc'', py ''def'']) (py ''abcdef'') (Some 3)) = py ''abcdef''
   \<and> detect_semantic_sections (\<lambda>t k. [py ''abc'', py ''def''])
       (\<lambda>i c. Some [\<lparr>s_title = Some (py ''S''), s_level = Some 1, s_char_start = Some 0,
                       s_char_end = Some (int (length c)), s_chunk_idx = None\<rparr>])
       (py ''abcdef'') (Some 3)
     = [sec ''S'' 1 0 3 0, sec ''S'' 1 3 6 1]
   \<and> within 0 (int (length (py ''abcdef''))) (sec ''S'' 1 3 6 1)"
proof -
  have a: "concat (chunks_of (\<lambda>t k. [py ''abc'', py ''def'']) (py ''abcdef'') (Some 3))
             = py ''abcdef''"
    by (simp add: chunks_of_def py_def)
  have run: "detect_semantic_sections (\<lambda>t k. [py ''abc'', py ''def''])
       (\<lambda>i c. Some [\<lparr>s_title = Some (py ''S''), s_level = Some 1, s_char_start = Some 0,
                       s_char_end = Some (int (length c)), s_chunk_idx = None\<rparr>])
       (py ''abcdef'') (Some 3)
     = [sec ''S'' 1 0 3 0, sec ''S'' 1 3 6 1]"
    by (simp add: detect_semantic_sections_def chunks_of_def Let_def py_def)
  then have c: "sec ''S'' 1 3 6 1 \<in> set (detect_semantic_sections (\<lambda>t k. [py ''abc'', py ''def''])
       (\<lambda>i c. Some [\<lparr>s_title = Some (py ''S''), s_level = Some 1, s_char_start = Some 0,
                       s_char_end = Some (int (length c)), s_chunk_idx = None\<rparr>])
       (py ''abcdef'') (Some 3))" by simp
  have "within 0 (int (length (py ''abcdef''))) (sec ''S'' 1 3 6 1)"
    by (rule detector_offsets_within_document [OF a _ c]) (auto simp: within_def)
  with a run show ?thesis by blast
qed

section \<open>Properties of the section reconciler\<close>


lemma dedup_loop_set: "set (dedup_loop xs merged seen) \<subseteq> set merged \<union> set xs"
proof (induction xs arbitrary: merged seen)
  case Nil
  then show ?case by simp
next
  case (Cons s ss)
  from Cons.IH [of merged seen] Cons.IH [of "merged @ [s]" "insert (position_key s) seen"]
  show ?case by auto
qed

lemma sorted_map_remove:
  "sorted (map f (ys @ x # xs)) \<Longrightarrow> sorted (map f (ys @ xs))"
  by (auto simp: sorted_append)

lemma dedup_loop_sorted:
  "sorted (map f (merged @ xs)) \<Longrightarrow> sorted (map f (dedup_loop xs merged seen))"
proof (induction xs arbitrary: merged seen)
  case Nil
  then show ?case by simp
next
  case (Cons s ss)
  show ?case
  proof (cases "position_key s \<in> seen")
    case True
    with Cons.IH [OF sorted_map_remove [OF Cons.prems]] show ?thesis by simp
  next
    case False
    from Cons.prems have "sorted (map f ((merged @ [s]) @ ss))" by simp
    from Cons.IH [OF this] False show ?thesis by simp
  qed
qed

lemma dedup_loop_distinct:
  "distinct (map position_key merged) \<Longrightarrow> position_key ` set merged \<subseteq> seen
     \<Longrightarrow> distinct (map position_key (dedup_loop xs merged seen))"
proof (induction xs arbitrary: merged seen)
  case Nil
  then show ?case by simp
next
  case (Cons s ss)
  show ?case
  proof (cases "position_key s \<in> seen")
    case True
    with Cons.IH [OF Cons.prems] show ?thesis by simp
  next
    case False
    with Cons.prems have "distinct (map position_key (merged @ [s]))"
      and "position_key ` set (merged @ [s]) \<subseteq> insert (position_key s) seen"
      by auto
    from Cons.IH [OF this] False show ?thesis by simp
  qed
qed

lemma dedup_loop_id:
  "distinct (map position_key xs) \<Longrightarrow> position_key ` set xs \<inter> seen = {}
     \<Longrightarrow> dedup_loop xs merged seen = merged @ xs"
  by (induction xs arbitrary: merged seen) auto






text \<open>
  C6.  Reconciling a reconciled list changes nothing: \<open>reconcile(reconcile(S))\<close>, with
  an error of the inner call propagated, is \<open>reconcile(S)\<close>.
\<close>

theorem reconcile_idempotent:
  "(case merge_overlapping_sections S of Inl e \<Rightarrow> Inl e | Inr R \<Rightarrow> merge_overlapping_sections R)
     = merge_overlapping_sections S"
proof (cases "S = [] \<or> list_ex (\<lambda>x. s_char_start x = None) S")
  case True
  then show ?thesis by (auto simp: merge_overlapping_sections_def)
next
  case False
  define R where "R = dedup_loop (sort_key sort_key_of S) [] {}"
  from False have run: "merge_overlapping_sections S = Inr R"
    by (simp add: merge_overlapping_sections_def R_def)
  have sub: "set R \<subseteq> set S"
    unfolding R_def using dedup_loop_set [of "sort_key sort_key_of S" "[]" "{}"] by simp
  with False have ok: "\<not> list_ex (\<lambda>x. s_char_start x = None) R"
    by (auto simp: list_ex_iff)
  have srt: "sorted (map sort_key_of R)"
    unfolding R_def by (rule dedup_loop_sorted) (simp add: sorted_sort_key)
  have dst: "distinct (map position_key R)"
    unfolding R_def by (rule dedup_loop_distinct) simp_all
  have "sort_key sort_key_of R = R" by (rule sort_key_id_if_sorted [OF srt])
  moreover have "dedup_loop R [] {} = R" using dedup_loop_id [OF dst, of "{}" "[]"] by simp
  ultimately have "merge_overlapping_sections R = Inr R"
    using ok by (simp add: merge_overlapping_sections_def)
  with run show ?thesis by simp
qed

lemmas merge_eval = merge_overlapping_sections_def sort_key_of_def position_key_def
  dict_get_def py_def

lemma merge_example: "merge_overlapping_sections
       [sec ''B'' 2 10 20 0, sec ''Introduction'' 1 0 10 0, sec ''A'' 1 10 20 0,
        sec ''Introduction'' 1 0 12 1]
     = Inr [sec ''Introduction'' 1 0 10 0, sec ''A'' 1 10 20 0, sec ''B'' 2 10 20 0]"
  by (simp add: merge_eval)


theorem reconcile_idempotent_witness:
  "merge_overlapping_sections
       [sec ''B'' 2 10 20 0, sec ''Introduction'' 1 0 10 0, sec ''A'' 1 10 20 0,
        sec ''Introduction'' 1 0 12 1]
     = Inr [sec ''Introduction'' 1 0 10 0, sec ''A'' 1 10 20 0, sec ''B'' 2 10 20 0]
   \<and> merge_overlapping_sections
       [sec ''Introduction'' 1 0 10 0, sec ''A'' 1 10 20 0, sec ''B'' 2 10 20 0]
     = Inr [sec ''Introduction'' 1 0 10 0, sec ''A'' 1 10 20 0, sec ''B'' 2 10 20 0]"
proof -
  have run: "merge_overlapping_sections
       [sec ''B'' 2 10 20 0, sec ''Introduction'' 1 0 10 0, sec ''A'' 1 10 20 0,
        sec ''Introduction'' 1 0 12 1]
     = Inr [sec ''Introduction'' 1 0 10 0, sec ''A'' 1 10 20 0, sec ''B'' 2 10 20 0]"
    by (simp add: merge_eval)
  from reconcile_idempotent [of "[sec ''B'' 2 10 20 0, sec ''Introduction'' 1 0 10 0,
        sec ''A'' 1 10 20 0, sec ''Introduction'' 1 0 12 1]"] run
  show ?thesis by simp
qed


section \<open>Properties of the section materializer\<close>

lemma length_extract_from: "length (extract_from text i ss) = length ss"
  by (induction ss arbitrary: i) (simp_all add: Let_def)

lemma extract_from_nth:
  "j < length ss \<Longrightarrow>
   extract_from text i ss ! j =
     \<lparr>n_title = dict_get (s_title (ss ! j)) (py ''Section '' @ str_of_nat (i + j + 1)),
      n_level = dict_get (s_level (ss ! j)) 1,
      n_char_start = dict_get (s_char_start (ss ! j)) 0,
      n_char_end =
        (if j + 1 < length ss
         then dict_get (s_char_start (ss ! (j + 1)))
                (dict_get (s_char_end (ss ! j)) (int (length text)))
         else dict_get (s_char_end (ss ! j)) (int (length text))),
      n_text = py_strip (py_slice text (dict_get (s_char_start (ss ! j)) 0)
        (if j + 1 < length ss
         then dict_get (s_char_start (ss ! (j + 1)))
                (dict_get (s_char_end (ss ! j)) (int (length text)))
         else dict_get (s_char_end (ss ! j)) (int (length text))))\<rparr>"
proof (induction ss arbitrary: i j)
  case Nil
  then show ?case by simp
next
  case (Cons s ss)
  show ?case
  proof (cases j)
    case 0
    then show ?thesis by (cases ss) (simp_all add: Let_def)
  next
    case (Suc j')
    with Cons.prems have "j' < length ss" by simp
    from Cons.IH [OF this, of "i + 1"] Suc show ?thesis
      by (simp add: Let_def)
  qed
qed

lemma py_strip_trims:
  "\<exists>a b. s = a @ py_strip s @ b \<and> list_all isspace a \<and> list_all isspace b
     \<and> (py_strip s = [] \<or> \<not> isspace (hd (py_strip s)) \<and> \<not> isspace (last (py_strip s)))"
proof -
  define a where "a = takeWhile isspace s"
  define t where "t = dropWhile isspace s"
  define b where "b = rev (takeWhile isspace (rev t))"
  define u where "u = dropWhile isspace (rev t)"
  have s: "s = a @ t" by (simp add: a_def t_def)
  have strip: "py_strip s = rev u" by (simp add: py_strip_def u_def t_def)
  have "rev t = takeWhile isspace (rev t) @ u" by (simp add: u_def)
  then have "rev (rev t) = rev (takeWhile isspace (rev t) @ u)" by (rule arg_cong)
  then have t: "t = rev u @ b" by (simp add: b_def)
  have sa: "list_all isspace a" by (auto simp: a_def list_all_iff dest: set_takeWhileD)
  have sb: "list_all isspace b" by (auto simp: b_def list_all_iff dest: set_takeWhileD)
  have ends: "\<not> isspace (hd (rev u)) \<and> \<not> isspace (last (rev u))" if ne: "u \<noteq> []"
  proof
    from ne have "\<not> isspace (hd u)" unfolding u_def by (rule hd_dropWhile)
    with ne show "\<not> isspace (last (rev u))" by (simp add: last_rev)
    from ne t have tne: "t \<noteq> []" by auto
    then have "\<not> isspace (hd t)" unfolding t_def by (rule hd_dropWhile)
    moreover have "hd (rev u) = hd t" using ne t by (simp add: hd_append)
    ultimately show "\<not> isspace (hd (rev u))" by simp
  qed
  from s t strip sa sb ends show ?thesis
    by (intro exI [of _ a] exI [of _ b]) auto
qed

text \<open>
  C7.  Node \<open>i\<close> of the materializer starts at section \<open>i\<close>'s \<open>char_start\<close>; it ends at
  the \<open>char_start\<close> of section \<open>i+1\<close> when a following section exists (whatever the
  section's own \<open>char_end\<close>), and otherwise at its own \<open>char_end\<close>, or at the end of
  the document when \<open>char_end\<close> is unset.  Its text is the slice of the document over
  that span with the whitespace at both ends removed.
\<close>

theorem materializer_spans:
  assumes "i < length sections"
  shows "length (extract_section_text text sections) = length sections
    \<and> n_char_start (extract_section_text text sections ! i)
         = dict_get (s_char_start (sections ! i)) 0
    \<and> (i + 1 < length sections \<longrightarrow>
          n_char_end (extract_section_text text sections ! i)
            = dict_get (s_char_start (sections ! (i + 1)))
                (dict_get (s_char_end (sections ! i)) (int (length text))))
    \<and> (i + 1 < length sections \<and> s_char_start (sections ! (i + 1)) = Some e \<longrightarrow>
          n_char_end (extract_section_text text sections ! i) = e)
    \<and> (i + 1 = length sections \<longrightarrow>
          n_char_end (extract_section_text text sections ! i)
            = dict_get (s_char_end (sections ! i)) (int (length text)))
    \<and> (i + 1 = length sections \<and> s_char_end (sections ! i) = None \<longrightarrow>
          n_char_end (extract_section_text text sections ! i) = int (length text))
    \<and> n_text (extract_section_text text sections ! i)
         = py_strip (py_slice text (n_char_start (extract_section_text text sections ! i))
                                   (n_char_end (extract_section_text text sections ! i)))
    \<and> (\<exists>a b. py_slice text (n_char_start (extract_section_text text sections ! i))
                            (n_char_end (extract_section_text text sections ! i))
                 = a @ n_text (extract_section_text text sections ! i) @ b
             \<and> list_all isspace a \<and> list_all isspace b
             \<and> (n_text (extract_section_text text sections ! i) = []
                \<or> \<not> isspace (hd (n_text (extract_section_text text sections ! i)))
                  \<and> \<not> isspace (last (n_text (extract_section_text text sections ! i)))))"
proof -
  define N where "N = extract_section_text text sections ! i"
  have nth: "N = extract_from text 0 sections ! i"
    by (simp add: N_def extract_section_text_def)
  have len: "length (extract_section_text text sections) = length sections"
    by (simp add: extract_section_text_def length_extract_from)
  have st: "n_char_start N = dict_get (s_char_start (sections ! i)) 0"
    unfolding nth by (subst extract_from_nth [OF assms]) simp
  have en: "n_char_end N =
        (if i + 1 < length sections
         then dict_get (s_char_start (sections ! (i + 1)))
                (dict_get (s_char_end (sections ! i)) (int (length text)))
         else dict_get (s_char_end (sections ! i)) (int (length text)))"
    unfolding nth by (subst extract_from_nth [OF assms]) simp
  have tx: "n_text N = py_strip (py_slice text (n_char_start N) (n_char_end N))"
    unfolding nth by (subst (1 2 3) extract_from_nth [OF assms]) simp
  have trim: "\<exists>a b. py_slice text (n_char_start N) (n_char_end N) = a @ n_text N @ b
             \<and> list_all isspace a \<and> list_all isspace b
             \<and> (n_text N = [] \<or> \<not> isspace (hd (n_text N)) \<and> \<not> isspace (last (n_text N)))"
    unfolding tx by (rule py_strip_trims)
  have less: "i + 1 < length sections \<or> i + 1 = length sections" using assms by linarith
  from len st en tx trim less show ?thesis
    unfolding N_def by (auto simp: dict_get_def)
qed

lemmas extract_eval = extract_section_text_def Let_def dict_get_def py_def py_strip_def
  py_slice_def slice_bound_def isspace_def str_of_nat.simps

theorem materializer_spans_witness:
  "(0::nat) < length [\<lparr>s_title = Some (py ''Intro''), s_level = Some 1, s_char_start = Some 0,
                        s_char_end = Some 5, s_chunk_idx = Some 0\<rparr>,
                      \<lparr>s_title = None, s_level = None, s_char_start = Some 8,
                        s_char_end = None, s_chunk_idx = Some 0\<rparr>]
   \<and> n_char_end (extract_section_text (py ''Intro.  Body here. '')
        [\<lparr>s_title = Some (py ''Intro''), s_level = Some 1, s_char_start = Some 0,
           s_char_end = Some 5, s_chunk_idx = Some 0\<rparr>,
         \<lparr>s_title = None, s_level = None, s_char_start = Some 8,
           s_char_end = None, s_chunk_idx = Some 0\<rparr>] ! 0) = 8
   \<and> extract_section_text (py ''Intro.  Body here. '')
        [\<lparr>s_title = Some (py ''Intro''), s_level = Some 1, s_char_start = Some 0,
           s_char_end = Some 5, s_chunk_idx = Some 0\<rparr>,
         \<lparr>s_title = None, s_level = None, s_char_start = Some 8,
           s_char_end = None, s_chunk_idx = Some 0\<rparr>]
      = [\<lparr>n_title = py ''Intro'', n_level = 1, n_char_start = 0, n_char_end = 8,
           n_text = py ''Intro.''\<rparr>,
         \<lparr>n_title = py ''Section 2'', n_level = 1, n_char_start = 8, n_char_end = 19,
           n_text = py ''Body here.''\<rparr>]"
proof -
  have h: "(0::nat) < length [\<lparr>s_title = Some (py ''Intro''), s_level = Some 1, s_char_start = Some 0,
                        s_char_end = Some 5, s_chunk_idx = Some 0\<rparr>,
                      \<lparr>s_title = None, s_level = None, s_char_start = Some 8,
                        s_char_end = None, s_chunk_idx = Some 0\<rparr>]" by simp
  have run: "extract_section_text (py ''Intro.  Body here. '')
        [\<lparr>s_title = Some (py ''Intro''), s_level = Some 1, s_char_start = Some 0,
           s_char_end = Some 5, s_chunk_idx = Some 0\<rparr>,
         \<lparr>s_title = None, s_level = None, s_char_start = Some 8,
           s_char_end = None, s_chunk_idx = Some 0\<rparr>]
      = [\<lparr>n_title = py ''Intro'', n_level = 1, n_char_start = 0, n_char_end = 8,
           n_text = py ''Intro.''\<rparr>,
         \<lparr>n_title = py ''Section 2'', n_level = 1, n_char_start = 8, n_char_end = 19,
           n_text = py ''Body here.''\<rparr>]"
    by (simp add: extract_eval)
  from materializer_spans [OF h, of "py ''Intro.  Body here. ''" 8]
  have "n_char_end (extract_section_text (py ''Intro.  Body here. '')
        [\<lparr>s_title = Some (py ''Intro''), s_level = Some 1, s_char_start = Some 0,
           s_char_end = Some 5, s_chunk_idx = Some 0\<rparr>,
         \<lparr>s_title = None, s_level = None, s_char_start = Some 8,
           s_char_end = None, s_chunk_idx = Some 0\<rparr>] ! 0) = 8"
    by simp
  with h run show ?thesis by blast
qed

section \<open>Properties of the tree builder\<close>

lemma pop_while_subset: "set (pop_while st l) \<subseteq> set st"
  by (induction st l rule: pop_while.induct) auto

lemma pop_while_top: "pop_while st l = (p, l') # rest \<Longrightarrow> l' < l"
  by (induction st l rule: pop_while.induct) (auto split: if_splits)

lemma children_append_child:
  "p < length h \<Longrightarrow>
   children (append_child h p c) q = (if q = p then children h p @ [c] else children h q)"
  by (simp add: children_def append_child_def dict_get_def)

lemma children_snoc:
  "q < length h \<Longrightarrow> children (h @ [n]) q = children h q"
  by (simp add: children_def nth_append)

lemma children_new:
  "t_nodes n = Some [] \<Longrightarrow> children (h @ [n]) (length h) = []"
  by (simp add: children_def dict_get_def)

lemma length_append_child: "length (append_child h p c) = length h"
  by (simp add: append_child_def)

lemma append_child_nth:
  "append_child h p c ! a =
     (if a = p \<and> p < length h then (h ! p)\<lparr>t_nodes := Some (children h p @ [c])\<rparr> else h ! a)"
  by (cases "p < length h") (auto simp: append_child_def list_update_beyond)

lemma append_child_fields:
  "t_title (append_child h p c ! a) = t_title (h ! a)"
  "t_node_id (append_child h p c ! a) = t_node_id (h ! a)"
  "t_text (append_child h p c ! a) = t_text (h ! a)"
  "t_char_start (append_child h p c ! a) = t_char_start (h ! a)"
  "t_char_end (append_child h p c ! a) = t_char_end (h ! a)"
  by (simp_all add: append_child_nth)


lemma build_inv_init: "build_inv [] build_init"
  by (simp add: build_inv_def build_init_def)

lemma build_invI:
  assumes "length (b_heap s) = length xs" "b_node_counter s = length xs + 1"
    and "\<And>a l. (a, l) \<in> set (b_stack s) \<Longrightarrow> a < length xs \<and> l = n_level (xs ! a)"
    and "\<And>p c. p < length xs \<Longrightarrow> c \<in> set (children (b_heap s) p) \<Longrightarrow>
            p < c \<and> c < length xs \<and> n_level (xs ! p) < n_level (xs ! c)"
    and "\<And>a. a < length xs \<Longrightarrow>
            t_title (b_heap s ! a) = n_title (xs ! a)
            \<and> t_node_id (b_heap s ! a) = zfill 4 (str_of_nat (a + 1))
            \<and> t_text (b_heap s ! a) = Some (n_text (xs ! a))
            \<and> t_char_start (b_heap s ! a) = n_char_start (xs ! a)
            \<and> t_char_end (b_heap s ! a) = n_char_end (xs ! a)"
  shows "build_inv xs s"
  unfolding build_inv_def using assms by blast

lemma build_invD:
  assumes "build_inv xs s"
  shows "length (b_heap s) = length xs" "b_node_counter s = length xs + 1"
    and "\<And>a l. (a, l) \<in> set (b_stack s) \<Longrightarrow> a < length xs \<and> l = n_level (xs ! a)"
    and "\<And>p c. p < length xs \<Longrightarrow> c \<in> set (children (b_heap s) p) \<Longrightarrow>
            p < c \<and> c < length xs \<and> n_level (xs ! p) < n_level (xs ! c)"
    and "\<And>a. a < length xs \<Longrightarrow>
            t_title (b_heap s ! a) = n_title (xs ! a)
            \<and> t_node_id (b_heap s ! a) = zfill 4 (str_of_nat (a + 1))
            \<and> t_text (b_heap s ! a) = Some (n_text (xs ! a))
            \<and> t_char_start (b_heap s ! a) = n_char_start (xs ! a)
            \<and> t_char_end (b_heap s ! a) = n_char_end (xs ! a)"
  using assms unfolding build_inv_def by blast+


lemma build_inv_step:
  assumes inv: "build_inv xs s"
  shows "build_inv (xs @ [x]) (build_step s x)"
proof -
  define k where "k = length xs"
  define node where "node = \<lparr>t_title = n_title x,
                       t_node_id = zfill 4 (str_of_nat (b_node_counter s)),
                       t_text = Some (n_text x),
                       t_char_start = n_char_start x,
                       t_char_end = n_char_end x,
                       t_nodes = Some [],
                       t_summary = None, t_prefix_summary = None\<rparr>"
  define h1 where "h1 = b_heap s @ [node]"
  define stack where "stack = pop_while (b_stack s) (n_level x)"
  note D = build_invD [OF inv, folded k_def]
  have len: "length (b_heap s) = k" by (rule D(1))
  have cnt: "b_node_counter s = k + 1" by (rule D(2))
  have lenx: "length (xs @ [x]) = k + 1" by (simp add: k_def)
  have lenh1: "length h1 = k + 1" by (simp add: h1_def len)
  have nth_old: "(xs @ [x]) ! a = xs ! a" if "a < k" for a
    using that by (simp add: k_def nth_append)
  have nth_new: "(xs @ [x]) ! k = x" by (simp add: k_def)
  have h1_old: "h1 ! a = b_heap s ! a" if "a < k" for a
    using that len by (simp add: h1_def nth_append)
  have h1_new: "h1 ! k = node" using len by (simp add: h1_def nth_append)
  have kids_h1_old: "children h1 q = children (b_heap s) q" if "q < k" for q
    using that by (simp add: children_def h1_old)
  have kids_h1_new: "children h1 k = []"
    by (simp add: children_def h1_new node_def dict_get_def)
  have stk': "a < k \<and> l = n_level (xs ! a)" if "(a, l) \<in> set stack" for a l
  proof -
    from that pop_while_subset [of "b_stack s" "n_level x"]
    have "(a, l) \<in> set (b_stack s)" unfolding stack_def by blast
    then show ?thesis by (rule D(3))
  qed
  have flds_h1: "t_title (h1 ! a) = n_title ((xs @ [x]) ! a)
                     \<and> t_node_id (h1 ! a) = zfill 4 (str_of_nat (a + 1))
                     \<and> t_text (h1 ! a) = Some (n_text ((xs @ [x]) ! a))
                     \<and> t_char_start (h1 ! a) = n_char_start ((xs @ [x]) ! a)
                     \<and> t_char_end (h1 ! a) = n_char_end ((xs @ [x]) ! a)" if "a < k + 1" for a
  proof (cases "a < k")
    case True
    from D(5) [OF True] show ?thesis by (simp add: h1_old [OF True] nth_old [OF True])
  next
    case False
    with that have "a = k" by simp
    then show ?thesis by (simp add: h1_new nth_new node_def cnt)
  qed
  have old_kids: "p < c \<and> c < k + 1 \<and> n_level ((xs @ [x]) ! p) < n_level ((xs @ [x]) ! c)"
    if "p < k" "c \<in> set (children (b_heap s) p)" for p c
  proof -
    from D(4) [OF that] have "p < c \<and> c < k \<and> n_level (xs ! p) < n_level (xs ! c)" .
    then show ?thesis using that(1) by (simp add: nth_old)
  qed
  show ?thesis
  proof (cases stack)
    case Nil
    have step: "build_step s x = \<lparr>b_heap = h1, b_stack = [(k, n_level x)],
                  b_root_nodes = b_root_nodes s @ [k], b_node_counter = b_node_counter s + 1\<rparr>"
      unfolding build_step_def Let_def stack_def [symmetric] node_def [symmetric]
        h1_def [symmetric] len
      by (simp add: Nil)
    show ?thesis
    proof (rule build_invI)
      show "length (b_heap (build_step s x)) = length (xs @ [x])"
        by (simp add: step lenh1 k_def)
      show "b_node_counter (build_step s x) = length (xs @ [x]) + 1"
        by (simp add: step cnt k_def)
    next
      fix a l assume "(a, l) \<in> set (b_stack (build_step s x))"
      then have "a = k \<and> l = n_level x" by (simp add: step)
      then show "a < length (xs @ [x]) \<and> l = n_level ((xs @ [x]) ! a)"
        by (simp add: k_def nth_new)
    next
      fix p c
      assume p: "p < length (xs @ [x])" and "c \<in> set (children (b_heap (build_step s x)) p)"
      then have c: "c \<in> set (children h1 p)" by (simp add: step)
      show "p < c \<and> c < length (xs @ [x])
            \<and> n_level ((xs @ [x]) ! p) < n_level ((xs @ [x]) ! c)"
      proof (cases "p < k")
        case True
        with c have "c \<in> set (children (b_heap s) p)" by (simp add: kids_h1_old)
        from old_kids [OF True this] show ?thesis by (simp add: k_def)
      next
        case False
        with p have "p = k" by (simp add: k_def)
        with c show ?thesis by (simp add: kids_h1_new)
      qed
    next
      fix a assume "a < length (xs @ [x])"
      then have "a < k + 1" by (simp add: k_def)
      from flds_h1 [OF this]
      show "t_title (b_heap (build_step s x) ! a) = n_title ((xs @ [x]) ! a)
            \<and> t_node_id (b_heap (build_step s x) ! a) = zfill 4 (str_of_nat (a + 1))
            \<and> t_text (b_heap (build_step s x) ! a) = Some (n_text ((xs @ [x]) ! a))
            \<and> t_char_start (b_heap (build_step s x) ! a) = n_char_start ((xs @ [x]) ! a)
            \<and> t_char_end (b_heap (build_step s x) ! a) = n_char_end ((xs @ [x]) ! a)"
        by (simp add: step)
    qed
  next
    case (Cons top rest)
    obtain parent l where top: "top = (parent, l)" by (cases top)
    from Cons top have st: "stack = (parent, l) # rest" by simp
    from pop_while_top [OF st [unfolded stack_def]] have lvl: "l < n_level x" .
    have "(parent, l) \<in> set stack" by (simp add: st)
    from stk' [OF this] have par: "parent < k" and l: "l = n_level (xs ! parent)" by simp_all
    define h2 where "h2 = append_child h1 parent k"
    have step: "build_step s x = \<lparr>b_heap = h2, b_stack = (k, n_level x) # stack,
                  b_root_nodes = b_root_nodes s, b_node_counter = b_node_counter s + 1\<rparr>"
      unfolding build_step_def Let_def stack_def [symmetric] node_def [symmetric]
        h1_def [symmetric] len h2_def
      by (simp add: st)
    have lenh2: "length h2 = k + 1" by (simp add: h2_def length_append_child lenh1)
    have kids_h2: "children h2 q = (if q = parent then children h1 parent @ [k] else children h1 q)"
      for q
      unfolding h2_def by (rule children_append_child) (use par lenh1 in simp)
    show ?thesis
    proof (rule build_invI)
      show "length (b_heap (build_step s x)) = length (xs @ [x])"
        by (simp add: step lenh2 k_def)
      show "b_node_counter (build_step s x) = length (xs @ [x]) + 1"
        by (simp add: step cnt k_def)
    next
      fix a l' assume "(a, l') \<in> set (b_stack (build_step s x))"
      then have "a = k \<and> l' = n_level x \<or> (a, l') \<in> set stack" by (simp add: step)
      then show "a < length (xs @ [x]) \<and> l' = n_level ((xs @ [x]) ! a)"
      proof
        assume "a = k \<and> l' = n_level x"
        then show ?thesis by (simp add: k_def nth_new)
      next
        assume "(a, l') \<in> set stack"
        from stk' [OF this] show ?thesis by (simp add: k_def nth_old)
      qed
    next
      fix p c
      assume p: "p < length (xs @ [x])" and "c \<in> set (children (b_heap (build_step s x)) p)"
      then have c: "c \<in> set (children h2 p)" by (simp add: step)
      show "p < c \<and> c < length (xs @ [x])
            \<and> n_level ((xs @ [x]) ! p) < n_level ((xs @ [x]) ! c)"
      proof (cases "p < k")
        case True
        show ?thesis
        proof (cases "c = k \<and> p = parent")
          case True
          with par lvl l show ?thesis by (simp add: k_def nth_old nth_new)
        next
          case False
          with c True have "c \<in> set (children (b_heap s) p)"
            by (auto simp: kids_h2 kids_h1_old split: if_splits)
          from old_kids [OF True this] show ?thesis by (simp add: k_def)
        qed
      next
        case False
        with p have "p = k" by (simp add: k_def)
        with c par show ?thesis by (simp add: kids_h2 kids_h1_new)
      qed
    next
      fix a assume "a < length (xs @ [x])"
      then have "a < k + 1" by (simp add: k_def)
      from flds_h1 [OF this]
      show "t_title (b_heap (build_step s x) ! a) = n_title ((xs @ [x]) ! a)
            \<and> t_node_id (b_heap (build_step s x) ! a) = zfill 4 (str_of_nat (a + 1))
            \<and> t_text (b_heap (build_step s x) ! a) = Some (n_text ((xs @ [x]) ! a))
            \<and> t_char_start (b_heap (build_step s x) ! a) = n_char_start ((xs @ [x]) ! a)
            \<and> t_char_end (b_heap (build_step s x) ! a) = n_char_end ((xs @ [x]) ! a)"
        by (simp add: step h2_def append_child_fields)
    qed
  qed
qed

lemma build_inv_foldl: "build_inv xs (foldl build_step build_init xs)"
proof (induction xs rule: rev_induct)
  case Nil
  show ?case by (simp add: build_inv_init)
next
  case (snoc x xs)
  then show ?case by (simp add: build_inv_step)
qed

lemma build_heap: 
  "st_heap (build_tree_from_txt_nodes node_list) = b_heap (foldl build_step build_init node_list)"
  by (simp add: build_tree_from_txt_nodes_def Let_def build_init_def)

lemma nested_levels:
  assumes inv: "build_inv xs s"
  shows "nested (b_heap s) (p # path) \<Longrightarrow> path \<noteq> [] \<Longrightarrow>
     p < length xs \<and> p < last path \<and> last path < length xs
     \<and> n_level (xs ! p) < n_level (xs ! last path)"
proof (induction path arbitrary: p)
  case Nil
  then show ?case by simp
next
  case (Cons c rest)
  from Cons.prems(1) have p: "p < length (b_heap s)" and c: "c \<in> set (children (b_heap s) p)"
    and rest: "nested (b_heap s) (c # rest)" by simp_all
  from p have p': "p < length xs" by (simp add: build_invD(1) [OF inv])
  from build_invD(4) [OF inv p' c]
  have direct: "p < c \<and> c < length xs \<and> n_level (xs ! p) < n_level (xs ! c)" .
  show ?case
  proof (cases "rest = []")
    case True
    with direct p' show ?thesis by simp
  next
    case False
    from Cons.IH [OF rest False]
    have "c < last rest \<and> last rest < length xs \<and> n_level (xs ! c) < n_level (xs ! last rest)"
      by simp
    with direct p' False show ?thesis by simp
  qed
qed

text \<open>
  C4.  In the tree built from any candidate list, node \<open>a\<close> of the heap is built from
  candidate \<open>a\<close> (same title, id \<open>a + 1\<close> zero-padded to four digits), so its source
  level is that candidate's level.  Along every chain of nodes each nested directly
  under the one before, from \<open>p\<close> down to the last node of \<open>path\<close> (a child of \<open>p\<close> when
  \<open>path\<close> has one element, a deeper descendant otherwise), the descendant comes later in
  the document and its source level is strictly greater than that of \<open>p\<close>.
\<close>

theorem children_strictly_deeper:
  assumes "nested (st_heap (build_tree_from_txt_nodes node_list)) (p # path)" "path \<noteq> []"
  shows "length (st_heap (build_tree_from_txt_nodes node_list)) = length node_list
    \<and> p < length node_list \<and> last path < length node_list \<and> p < last path
    \<and> n_level (node_list ! p) < n_level (node_list ! last path)
    \<and> t_title (st_heap (build_tree_from_txt_nodes node_list) ! p) = n_title (node_list ! p)
    \<and> t_node_id (st_heap (build_tree_from_txt_nodes node_list) ! p)
         = zfill 4 (str_of_nat (p + 1))
    \<and> t_title (st_heap (build_tree_from_txt_nodes node_list) ! last path)
         = n_title (node_list ! last path)
    \<and> t_node_id (st_heap (build_tree_from_txt_nodes node_list) ! last path)
         = zfill 4 (str_of_nat (last path + 1))"
proof -
  define s where "s = foldl build_step build_init node_list"
  have inv: "build_inv node_list s" unfolding s_def by (rule build_inv_foldl)
  have heap: "st_heap (build_tree_from_txt_nodes node_list) = b_heap s"
    by (simp add: build_heap s_def)
  from assms have n: "nested (b_heap s) (p # path)" by (simp add: heap)
  from nested_levels [OF inv n assms(2)]
  have lv: "p < length node_list \<and> p < last path \<and> last path < length node_list
     \<and> n_level (node_list ! p) < n_level (node_list ! last path)" .
  then have p: "p < length node_list" and c: "last path < length node_list" by simp_all
  from build_invD(1) [OF inv] build_invD(5) [OF inv p] build_invD(5) [OF inv c] lv
  show ?thesis by (simp add: heap)
qed

lemma zfill_eval: "zfill 4 [a] = [48, 48, 48, a]"
  by (simp add: zfill_def eval_nat_numeral)

lemmas build_eval = build_tree_from_txt_nodes_def build_init_def build_step_def Let_def
  append_child_def children_def dict_get_def zfill_eval str_of_nat.simps py_def

lemma build_example:
  "st_roots (build_tree_from_txt_nodes example_outline) = [0, 3]
   \<and> map (children (st_heap (build_tree_from_txt_nodes example_outline))) [0, 1, 2, 3, 4]
       = [[1, 2], [], [], [4], []]
   \<and> map t_node_id (st_heap (build_tree_from_txt_nodes example_outline))
       = [py ''0001'', py ''0002'', py ''0003'', py ''0004'', py ''0005'']"
  by (simp add: build_eval)

theorem children_strictly_deeper_witness:
  "nested (st_heap (build_tree_from_txt_nodes example_outline)) [3, 4]
   \<and> st_roots (build_tree_from_txt_nodes example_outline) = [0, 3]
   \<and> map (children (st_heap (build_tree_from_txt_nodes example_outline))) [0, 1, 2, 3, 4]
       = [[1, 2], [], [], [4], []]
   \<and> n_level (example_outline ! 3) < n_level (example_outline ! 4)
   \<and> t_node_id (st_heap (build_tree_from_txt_nodes example_outline) ! 4) = py ''0005''"
proof -
  have n: "nested (st_heap (build_tree_from_txt_nodes example_outline)) [3, 4]"
    by (simp add: build_eval)
  have ne: "[4::nat] \<noteq> []" by simp
  from children_strictly_deeper [OF n ne]
  have "n_level (example_outline ! 3) < n_level (example_outline ! 4)
    \<and> t_node_id (st_heap (build_tree_from_txt_nodes example_outline) ! 4)
         = zfill 4 (str_of_nat (4 + 1))" by simp
  then have "n_level (example_outline ! 3) < n_level (example_outline ! 4)
    \<and> t_node_id (st_heap (build_tree_from_txt_nodes example_outline) ! 4) = py ''0005''"
    by (simp add: zfill_eval str_of_nat.simps py_def)
  with n build_example show ?thesis by blast
qed

section \<open>Properties of the summary orchestrator\<close>

lemma get_node_summary_txt_short:
  "counter (dict_get (t_text node) []) < thr \<Longrightarrow>
   get_node_summary_txt counter gen thr node = (dict_get (t_text node) [], False)"
  by (simp add: get_node_summary_txt_def Let_def)

lemma update_frame:
  assumes "t_nodes v = t_nodes (h ! b)" "t_text v = t_text (h ! b)"
  shows "t_nodes (h[b := v] ! a) = t_nodes (h ! a) \<and> t_text (h[b := v] ! a) = t_text (h ! a)"
proof (cases "b < length h")
  case True
  with assms show ?thesis by (cases "a = b") simp_all
next
  case False
  then show ?thesis by (simp add: list_update_beyond)
qed

lemma write_summaries_frame:
  "length (write_summaries h ws) = length h
   \<and> t_nodes (write_summaries h ws ! a) = t_nodes (h ! a)
   \<and> t_text (write_summaries h ws ! a) = t_text (h ! a)"
proof (induction ws arbitrary: h)
  case Nil
  show ?case by simp
next
  case (Cons w ws)
  obtain b s where w: "w = (b, s)" by (cases w)
  define v where "v = (if children h b = [] then (h ! b)\<lparr>t_summary := Some s\<rparr>
                else (h ! b)\<lparr>t_prefix_summary := Some s\<rparr>)"
  have "t_nodes v = t_nodes (h ! b)" "t_text v = t_text (h ! b)" by (simp_all add: v_def)
  from update_frame [OF this, of a] Cons.IH [of "h[b := v]"]
  show ?case by (simp add: w v_def)
qed

lemma write_summaries_value:
  assumes "a < length h"
    and "\<And>s. (a, s) \<in> set ws \<Longrightarrow> s = v"
    and "(\<exists>s. (a, s) \<in> set ws) \<or> written_back (h ! a) = Some v"
  shows "written_back (write_summaries h ws ! a) = Some v"
  using assms
proof (induction ws arbitrary: h)
  case Nil
  then show ?case by simp
next
  case (Cons w ws)
  obtain b s where w: "w = (b, s)" by (cases w)
  define h' where "h' = h[b := (if children h b = [] then (h ! b)\<lparr>t_summary := Some s\<rparr>
                else (h ! b)\<lparr>t_prefix_summary := Some s\<rparr>)]"
  have step: "write_summaries h (w # ws) = write_summaries h' ws" by (simp add: w h'_def)
  have len: "a < length h'" using Cons.prems(1) by (simp add: h'_def)
  have same: "\<And>s. (a, s) \<in> set ws \<Longrightarrow> s = v" using Cons.prems(2) by simp
  have "(\<exists>s. (a, s) \<in> set ws) \<or> written_back (h' ! a) = Some v"
  proof (cases "b = a")
    case True
    with Cons.prems(2) w have "s = v" by simp
    with True Cons.prems(1) have "written_back (h' ! a) = Some v"
      by (simp add: h'_def written_back_def children_def)
    then show ?thesis ..
  next
    case False
    then have "h' ! a = h ! a" by (simp add: h'_def)
    with Cons.prems(3) False w show ?thesis by auto
  qed
  from Cons.IH [OF len same this] show ?case by (simp add: step)
qed

text \<open>
  C10.  For every node of the flattened structure whose text has fewer tokens (by the
  external counter) than \<open>summary_token_threshold\<close>: \<open>get_node_summary_txt\<close> returns the
  text itself without calling the summarization oracle, the orchestrator issues no
  oracle call for that node, and what it writes back for the node (\<open>summary\<close> for a leaf,
  \<open>prefix_summary\<close> for a node with children) is the node's own text, which it leaves
  unchanged.
\<close>

theorem summary_short_circuit:
  assumes "a \<in> set (flatten structure)" "a < length (st_heap structure)"
    and "counter (dict_get (t_text (st_heap structure ! a)) []) < summary_token_threshold"
  shows "a \<notin> set (snd (generate_summaries_for_txt_structure flatten counter
                         summarizer summary_token_threshold structure))
    \<and> written_back (st_heap (fst (generate_summaries_for_txt_structure flatten
                         counter summarizer summary_token_threshold structure)) ! a)
        = Some (dict_get (t_text (st_heap structure ! a)) [])
    \<and> t_text (st_heap (fst (generate_summaries_for_txt_structure flatten
                         counter summarizer summary_token_threshold structure)) ! a)
        = t_text (st_heap structure ! a)
    \<and> get_node_summary_txt counter (summarizer i) summary_token_threshold
          (st_heap structure ! a)
        = (dict_get (t_text (st_heap structure ! a)) [], False)"
proof -
  define nodes where "nodes = flatten structure"
  define h where "h = st_heap structure"
  define v where "v = dict_get (t_text (h ! a)) []"
  define tasks where "tasks = map (\<lambda>(i, a). get_node_summary_txt counter
        (summarizer i) summary_token_threshold (h ! a)) (enumerate 0 nodes)"
  have short: "get_node_summary_txt counter (summarizer j)
        summary_token_threshold (h ! a) = (v, False)" for j
    unfolding v_def using assms(3) by (intro get_node_summary_txt_short) (simp add: h_def)
  have ltasks: "length tasks = length nodes" by (simp add: tasks_def)
  have task: "tasks ! j = get_node_summary_txt counter (summarizer j)
        summary_token_threshold (h ! (nodes ! j))" if "j < length nodes" for j
    using that by (simp add: tasks_def nth_enumerate_eq)
  have at_a: "r = (v, False)" if "(a, r) \<in> set (zip nodes tasks)" for r
  proof -
    from that obtain j where "j < length nodes" "nodes ! j = a" "tasks ! j = r"
      by (auto simp: in_set_zip)
    with task [of j] short [of j] show ?thesis by simp
  qed
  have res: "generate_summaries_for_txt_structure flatten counter
                summarizer summary_token_threshold structure
      = (structure\<lparr>st_heap := write_summaries h (zip nodes (map fst tasks))\<rparr>,
         map fst (filter (\<lambda>(a, r). snd r) (zip nodes tasks)))"
    by (simp add: generate_summaries_for_txt_structure_def Let_def nodes_def h_def tasks_def)
  have no_call: "a \<notin> set (map fst (filter (\<lambda>(a, r). snd r) (zip nodes tasks)))"
  proof
    assume "a \<in> set (map fst (filter (\<lambda>(a, r). snd r) (zip nodes tasks)))"
    then obtain r where "(a, r) \<in> set (zip nodes tasks)" "snd r" by auto
    with at_a [of r] show False by simp
  qed
  have same: "s = v" if "(a, s) \<in> set (zip nodes (map fst tasks))" for s
  proof -
    from that obtain j where j: "j < length nodes" "nodes ! j = a" "map fst tasks ! j = s"
      by (auto simp: in_set_zip)
    then have "(a, tasks ! j) \<in> set (zip nodes tasks)"
      using ltasks by (auto simp: in_set_zip)
    from at_a [OF this] j ltasks show ?thesis by simp
  qed
  have some: "\<exists>s. (a, s) \<in> set (zip nodes (map fst tasks))"
  proof -
    from assms(1) obtain j where j: "j < length nodes" "nodes ! j = a"
      by (auto simp: nodes_def in_set_conv_nth)
    then have "(a, map fst tasks ! j) \<in> set (zip nodes (map fst tasks))"
      using ltasks by (auto simp: in_set_zip)
    then show ?thesis ..
  qed
  have alen: "a < length h" using assms(2) by (simp add: h_def)
  have wb: "written_back (write_summaries h (zip nodes (map fst tasks)) ! a) = Some v"
    by (rule write_summaries_value [OF alen same]) (use some in blast)+
  have tx: "t_text (write_summaries h (zip nodes (map fst tasks)) ! a) = t_text (h ! a)"
    using write_summaries_frame [of h "zip nodes (map fst tasks)" a] by simp
  from no_call wb tx short [of i] show ?thesis
    unfolding res by (simp add: v_def h_def)
qed


lemmas summary_eval = generate_summaries_for_txt_structure_def get_node_summary_txt_def
  Let_def dict_get_def children_def written_back_def py_def enumerate_eq_zip

theorem summary_short_circuit_witness:
  "(0::nat) \<in> set [0, 1] \<and> (0::nat) < length (st_heap example_structure)
   \<and> int (length (dict_get (t_text (st_heap example_structure ! 0)) [])) < 5
   \<and> snd (generate_summaries_for_txt_structure (\<lambda>s. [0, 1]) (\<lambda>t. int (length t))
             (\<lambda>i n. py ''An oracle summary'') 5 example_structure) = [1]
   \<and> written_back (st_heap (fst (generate_summaries_for_txt_structure (\<lambda>s. [0, 1])
             (\<lambda>t. int (length t)) (\<lambda>i n. py ''An oracle summary'') 5 example_structure)) ! 0)
        = Some (py ''Hi'')
   \<and> t_prefix_summary (st_heap (fst (generate_summaries_for_txt_structure (\<lambda>s. [0, 1])
             (\<lambda>t. int (length t)) (\<lambda>i n. py ''An oracle summary'') 5 example_structure)) ! 0)
        = Some (py ''Hi'')
   \<and> t_summary (st_heap (fst (generate_summaries_for_txt_structure (\<lambda>s. [0, 1])
             (\<lambda>t. int (length t)) (\<lambda>i n. py ''An oracle summary'') 5 example_structure)) ! 1)
        = Some (py ''An oracle summary'')"
proof -
  have a: "(0::nat) \<in> set ((\<lambda>s. [0, 1]) example_structure)" by simp
  have b: "(0::nat) < length (st_heap example_structure)" by simp
  have c: "(\<lambda>t. int (length t)) (dict_get (t_text (st_heap example_structure ! 0)) []) < 5"
    by (simp add: dict_get_def py_def)
  have run: "snd (generate_summaries_for_txt_structure (\<lambda>s. [0, 1]) (\<lambda>t. int (length t))
             (\<lambda>i n. py ''An oracle summary'') 5 example_structure) = [1]
   \<and> t_prefix_summary (st_heap (fst (generate_summaries_for_txt_structure (\<lambda>s. [0, 1])
             (\<lambda>t. int (length t)) (\<lambda>i n. py ''An oracle summary'') 5 example_structure)) ! 0)
        = Some (py ''Hi'')
   \<and> t_summary (st_heap (fst (generate_summaries_for_txt_structure (\<lambda>s. [0, 1])
             (\<lambda>t. int (length t)) (\<lambda>i n. py ''An oracle summary'') 5 example_structure)) ! 1)
        = Some (py ''An oracle summary'')"
    by (simp add: summary_eval)
  from summary_short_circuit [of 0 "\<lambda>s. [0, 1]" example_structure "\<lambda>t. int (length t)" 5
      "\<lambda>i n. py ''An oracle summary''", OF a b c]
  have "written_back (st_heap (fst (generate_summaries_for_txt_structure (\<lambda>s. [0, 1])
             (\<lambda>t. int (length t)) (\<lambda>i n. py ''An oracle summary'') 5 example_structure)) ! 0)
        = Some (dict_get (t_text (st_heap example_structure ! 0)) [])" by blast
  then have "written_back (st_heap (fst (generate_summaries_for_txt_structure (\<lambda>s. [0, 1])
             (\<lambda>t. int (length t)) (\<lambda>i n. py ''An oracle summary'') 5 example_structure)) ! 0)
        = Some (py ''Hi'')" by (simp add: dict_get_def)
  with a b c run show ?thesis by simp
qed

section \<open>Properties of the pipeline\<close>

text \<open>
  C3.  Two runs of \<open>txt_to_tree\<close> on the same document, with the same collaborators
  (the file, the oracles' answers, the utilities) and the same remaining options, that
  differ only in \<open>window_size\<close> and \<open>overlap\<close> return the same result: the pipeline
  never calls \<open>window_text_with_overlap\<close> and uses the two parameters for nothing but
  a progress message.
\<close>

theorem window_parameters_do_not_matter:
  "txt_to_tree env txt_path window_size overlap if_add_node_summary summary_token_threshold
       if_add_doc_description if_add_node_text if_add_node_id max_input_tokens
   = txt_to_tree env txt_path window_size' overlap' if_add_node_summary summary_token_threshold
       if_add_doc_description if_add_node_text if_add_node_id max_input_tokens"
  by (simp add: txt_to_tree_def)

end
